theory Spec2Isabelle
  imports Main "HOL-Library.Word"
begin

section \<open>The brainfuck virtual machine of main.cpp\<close>

text \<open>
  The development embeds \<^verbatim>\<open>next_op\<close>, \<^verbatim>\<open>run_vm\<close> and the driving loop of
  \<^verbatim>\<open>main\<close>. A C++ \<^verbatim>\<open>int\<close> is a 32-bit word: \<^verbatim>\<open>++\<close> and \<^verbatim>\<open>--\<close> wrap in
  two's complement and \<^verbatim>\<open><\<close> compares the signed readings. The C++ standard leaves
  the overflow of an \<^verbatim>\<open>int\<close> undefined; the model fixes the result of two's-complement
  hardware there, and no statement below needs an overflow to happen.
  A tape cell is a \<^verbatim>\<open>char\<close>, an 8-bit word on which \<^verbatim>\<open>++\<close> and \<^verbatim>\<open>--\<close> wrap.
  Symbols of the program are characters.
\<close>

subsection \<open>Operations and the operator table\<close>

datatype brainfuck_op =
    increment_value_op
  | decrement_value_op
  | increment_ptr_op
  | decrement_ptr_op
  | print_op
  | read_op
  | loop_start_op
  | loop_end_op
  | monostate

definition bf_op_map :: "(char \<times> brainfuck_op) list" where
  "bf_op_map =
     [(CHR ''+'', increment_value_op),
      (CHR ''-'', decrement_value_op),
      (CHR ''>'', increment_ptr_op),
      (CHR ''<'', decrement_ptr_op),
      (CHR ''.'', print_op),
      (CHR '','', read_op),
      (CHR ''['', loop_start_op),
      (CHR '']'', loop_end_op)]"

subsection \<open>The machine state\<close>

text \<open>
  The record has the six fields of \<^verbatim>\<open>brainfuck_vm_status\<close>, in the order of the source.
  The tape is a \<^verbatim>\<open>std::map<int, char>\<close>: a partial map whose missing keys read as 0.
  The stack \<^verbatim>\<open>instruction_loop_ptr\<close> is a list whose head is the top.
\<close>

record brainfuck_vm_status =
  tape :: "32 word \<rightharpoonup> 8 word"
  tape_ptr :: "32 word"
  instruction :: "char list"
  instruction_ptr_current :: "32 word"
  instruction_loop_ptr :: "32 word list"
  jump_loop :: "32 word"

text \<open>
  The process around the status: the bytes still unread on standard input (shared by
  \<^verbatim>\<open>std::cin\<close> in \<^verbatim>\<open>main\<close> and by \<^verbatim>\<open>getchar\<close>), the bytes written by \<^verbatim>\<open>printf\<close>,
  and a history variable \<open>calls\<close> that records every invocation of \<^verbatim>\<open>run_vm\<close> with its
  arguments \<^verbatim>\<open>char_op\<close> and \<^verbatim>\<open>via_loop\<close>. The source has no such variable and no
  definition below reads it (lemma \<open>calls_irrelevant\<close>): it only makes the number of
  executions of an instruction a property of the final state.
\<close>

record machine = brainfuck_vm_status +
  stdin :: "char list"
  stdout :: "8 word list"
  calls :: "(char \<times> bool) list"

definition initial_status :: "char list \<Rightarrow> machine" where
  "initial_status inp =
     \<lparr> tape = Map.empty, tape_ptr = 0, instruction = [],
       instruction_ptr_current = - 1, instruction_loop_ptr = [], jump_loop = 0,
       stdin = inp, stdout = [], calls = [] \<rparr>"

text \<open>The tape as a total mapping from index to byte.\<close>

definition cell_value :: "machine \<Rightarrow> 32 word \<Rightarrow> 8 word" where
  "cell_value s = (\<lambda>i. case tape s i of None \<Rightarrow> 0 | Some v \<Rightarrow> v)"

text \<open>
  \<^verbatim>\<open>status.tape[status.tape_ptr]\<close>: \<open>tape_at\<close> is the value read, and \<open>tape_ref\<close> is the
  status after the access, since \<^verbatim>\<open>operator[]\<close> of \<^verbatim>\<open>std::map\<close> inserts a
  zero cell under a missing key.
\<close>

definition tape_at :: "machine \<Rightarrow> 8 word" where
  "tape_at s = cell_value s (tape_ptr s)"

definition tape_ref :: "machine \<Rightarrow> machine" where
  "tape_ref s = s\<lparr>tape := (tape s)(tape_ptr s \<mapsto> tape_at s)\<rparr>"

definition tape_store :: "machine \<Rightarrow> 8 word \<Rightarrow> machine" where
  "tape_store s v = s\<lparr>tape := (tape s)(tape_ptr s \<mapsto> v)\<rparr>"

subsection \<open>Errors\<close>

text \<open>
  \<open>Out_Of_Fuel\<close> stands for a call that has not returned within the given number of nested
  calls and loop iterations. The other two are the undefined behaviour of the source:
  \<^verbatim>\<open>top()\<close> or \<^verbatim>\<open>pop()\<close> on an empty \<^verbatim>\<open>std::stack\<close>, and
  \<^verbatim>\<open>status.instruction[i]\<close> outside the vector.
\<close>

datatype error = Out_Of_Fuel | Stack_Empty | Index_Out_Of_Range

subsection \<open>The decoder\<close>

definition next_op :: "machine \<Rightarrow> char \<Rightarrow> bool \<Rightarrow> brainfuck_op \<times> machine" where
  "next_op status char_op via_loop =
     (case map_of bf_op_map char_op of
        Some op \<Rightarrow>
          (if \<not> via_loop
           then (op, status\<lparr>instruction := instruction status @ [char_op],
                            instruction_ptr_current := instruction_ptr_current status + 1\<rparr>)
           else (op, status))
      | None \<Rightarrow> (monostate, status))"

subsection \<open>The interpreter\<close>

text \<open>
  \<open>read_char\<close> is \<^verbatim>\<open>status.tape[status.tape_ptr] = getchar()\<close>: at the end of input
  \<^verbatim>\<open>getchar\<close> returns \<^verbatim>\<open>EOF\<close>, which is -1 and is stored as the byte 255.
\<close>

definition read_char :: "machine \<Rightarrow> machine" where
  "read_char s =
     (case stdin s of
        [] \<Rightarrow> tape_store s (- 1)
      | c # cs \<Rightarrow> (tape_store s (of_char c))\<lparr>stdin := cs\<rparr>)"

definition instruction_at :: "machine \<Rightarrow> error + char" where
  "instruction_at s =
     (let i = sint (instruction_ptr_current s)
      in if 0 \<le> i \<and> nat i < length (instruction s)
         then Inr (instruction s ! nat i)
         else Inl Index_Out_Of_Range)"

definition pop_loop :: "machine \<Rightarrow> error + machine" where
  "pop_loop s =
     (case instruction_loop_ptr s of
        [] \<Rightarrow> Inl Stack_Empty
      | t # st \<Rightarrow> Inr (s\<lparr>instruction_loop_ptr := st\<rparr>))"

text \<open>
  \<open>run_vm\<close> is \<^verbatim>\<open>run_vm\<close>, and \<open>visit\<close> is its \<^verbatim>\<open>std::visit\<close> over the nine
  handlers, in the order of the source. \<open>loop_while\<close> is the outer \<^verbatim>\<open>while\<close> of the
  \<^verbatim>\<open>loop_end_op\<close> handler and \<open>replay_while\<close> the inner one, with the saved local
  \<^verbatim>\<open>current\<close> as a parameter. The first argument is the fuel: every call of
  \<open>run_vm\<close> and every iteration of a loop takes one unit, and a call without fuel is
  \<open>Inl Out_Of_Fuel\<close>.
\<close>

fun run_vm :: "nat \<Rightarrow> machine \<Rightarrow> char \<Rightarrow> bool \<Rightarrow> error + machine"
  and visit :: "nat \<Rightarrow> brainfuck_op \<Rightarrow> machine \<Rightarrow> error + machine"
  and loop_while :: "nat \<Rightarrow> machine \<Rightarrow> error + machine"
  and replay_while :: "nat \<Rightarrow> 32 word \<Rightarrow> machine \<Rightarrow> error + machine"
where
  "run_vm 0 status char_op via_loop = Inl Out_Of_Fuel"
| "run_vm (Suc n) status char_op via_loop =
     (case next_op (status\<lparr>calls := calls status @ [(char_op, via_loop)]\<rparr>) char_op via_loop of
        (op, s) \<Rightarrow> visit n op s)"
| "visit n increment_value_op status =
     Inr (if jump_loop status = 0 then tape_store status (tape_at status + 1) else status)"
| "visit n decrement_value_op status =
     Inr (if jump_loop status = 0 then tape_store status (tape_at status - 1) else status)"
| "visit n increment_ptr_op status =
     Inr (if jump_loop status = 0 then status\<lparr>tape_ptr := tape_ptr status + 1\<rparr> else status)"
| "visit n decrement_ptr_op status =
     Inr (if jump_loop status = 0 then status\<lparr>tape_ptr := tape_ptr status - 1\<rparr> else status)"
| "visit n print_op status =
     Inr (if jump_loop status = 0
          then (tape_ref status)\<lparr>stdout := stdout status @ [tape_at status]\<rparr>
          else status)"
| "visit n read_op status =
     Inr (if jump_loop status = 0 then read_char status else status)"
| "visit n loop_start_op status =
     (let s1 = tape_ref status
      in if tape_at s1 \<noteq> 0 \<and> jump_loop s1 = 0
         then Inr (s1\<lparr>instruction_loop_ptr :=
                     instruction_ptr_current s1 # instruction_loop_ptr s1\<rparr>)
         else Inr (s1\<lparr>jump_loop := jump_loop s1 + 1\<rparr>))"
| "visit n loop_end_op status =
     (if jump_loop status \<noteq> 0
      then Inr (status\<lparr>jump_loop := jump_loop status - 1\<rparr>)
      else
        (let s1 = tape_ref status
         in if tape_at s1 \<noteq> 0
            then (case loop_while n s1 of
                    Inl e \<Rightarrow> Inl e
                  | Inr s2 \<Rightarrow> pop_loop s2)
            else Inr s1))"
| "visit n monostate status = Inr status"
| "loop_while 0 status = Inl Out_Of_Fuel"
| "loop_while (Suc n) status =
     (let s1 = tape_ref status
      in if tape_at s1 \<noteq> 0
         then
           (let current = instruction_ptr_current s1
            in case instruction_loop_ptr s1 of
                 [] \<Rightarrow> Inl Stack_Empty
               | t # st \<Rightarrow>
                   (case replay_while n current (s1\<lparr>instruction_ptr_current := t + 1\<rparr>) of
                      Inl e \<Rightarrow> Inl e
                    | Inr s2 \<Rightarrow> loop_while n (s2\<lparr>instruction_ptr_current := current\<rparr>)))
         else Inr s1)"
| "replay_while 0 current status = Inl Out_Of_Fuel"
| "replay_while (Suc n) current status =
     (if instruction_ptr_current status <s current
      then
        (case instruction_at status of
           Inl e \<Rightarrow> Inl e
         | Inr c \<Rightarrow>
             (case run_vm n status c True of
                Inl e \<Rightarrow> Inl e
              | Inr s1 \<Rightarrow>
                  replay_while n current
                    (s1\<lparr>instruction_ptr_current := instruction_ptr_current s1 + 1\<rparr>)))
      else Inr status)"

subsection \<open>The driver\<close>

text \<open>
  \<open>feed\<close> hands the symbols of a program to \<open>run_vm\<close> one at a time, each as a fresh
  decode (\<^verbatim>\<open>via_loop\<close> at its default \<^verbatim>\<open>false\<close>), as the loop of \<^verbatim>\<open>main\<close> does.
\<close>

fun feed :: "nat \<Rightarrow> machine \<Rightarrow> char list \<Rightarrow> error + machine" where
  "feed n status [] = Inr status"
| "feed n status (c # cs) =
     (case run_vm n status c False of
        Inl e \<Rightarrow> Inl e
      | Inr s \<Rightarrow> feed n s cs)"

text \<open>
  \<open>main_loop\<close> is \<^verbatim>\<open>while (std::cin >> char_op) run_vm(status, char_op)\<close>: the
  extraction skips white space, takes one character, and fails at the end of input.
\<close>

definition isspace :: "char \<Rightarrow> bool" where
  "isspace c = (c \<in> set [CHR 0x20, CHR 0x09, CHR 0x0A, CHR 0x0B, CHR 0x0C, CHR 0x0D])"

fun main_loop :: "nat \<Rightarrow> machine \<Rightarrow> error + machine" where
  "main_loop 0 status = Inl Out_Of_Fuel"
| "main_loop (Suc n) status =
     (case dropWhile isspace (stdin status) of
        [] \<Rightarrow> Inr (status\<lparr>stdin := []\<rparr>)
      | char_op # rest \<Rightarrow>
          (case run_vm n (status\<lparr>stdin := rest\<rparr>) char_op False of
             Inl e \<Rightarrow> Inl e
           | Inr s \<Rightarrow> main_loop n s))"


subsection \<open>Notions used in the statements\<close>

text \<open>
  \<open>balanced d cs\<close>: read from nesting depth \<open>d\<close>, the brackets of \<open>cs\<close> never close more
  loops than are open and end at depth 0.
\<close>

fun balanced :: "nat \<Rightarrow> char list \<Rightarrow> bool" where
  "balanced d [] = (d = 0)"
| "balanced d (c # cs) =
     (if c = CHR ''['' then balanced (Suc d) cs
      else if c = CHR '']'' then (case d of 0 \<Rightarrow> False | Suc d' \<Rightarrow> balanced d' cs)
      else balanced d cs)"

text \<open>The instruction pointer is the index of the last entry of the instruction log.\<close>

definition log_invariant :: "machine \<Rightarrow> bool" where
  "log_invariant s \<longleftrightarrow>
     instruction_ptr_current s = of_nat (length (instruction s)) - 1"

section \<open>Basic facts\<close>

lemma map_of_bf_op_map_simps [simp]:
  "map_of bf_op_map (CHR ''+'') = Some increment_value_op"
  "map_of bf_op_map (CHR ''-'') = Some decrement_value_op"
  "map_of bf_op_map (CHR ''>'') = Some increment_ptr_op"
  "map_of bf_op_map (CHR ''<'') = Some decrement_ptr_op"
  "map_of bf_op_map (CHR ''.'') = Some print_op"
  "map_of bf_op_map (CHR '','') = Some read_op"
  "map_of bf_op_map (CHR ''['') = Some loop_start_op"
  "map_of bf_op_map (CHR '']'') = Some loop_end_op"
  by (simp_all add: bf_op_map_def)

lemma map_of_bf_op_map_None:
  "c \<notin> set ''+-><.,[]'' \<Longrightarrow> map_of bf_op_map c = None"
  by (simp add: bf_op_map_def)

lemma map_of_bf_op_map_cases:
  "map_of bf_op_map c = Some op \<Longrightarrow>
     (c = CHR ''+'' \<and> op = increment_value_op) \<or> (c = CHR ''-'' \<and> op = decrement_value_op) \<or>
     (c = CHR ''>'' \<and> op = increment_ptr_op) \<or> (c = CHR ''<'' \<and> op = decrement_ptr_op) \<or>
     (c = CHR ''.'' \<and> op = print_op) \<or> (c = CHR '','' \<and> op = read_op) \<or>
     (c = CHR ''['' \<and> op = loop_start_op) \<or> (c = CHR '']'' \<and> op = loop_end_op)"
  by (auto simp: bf_op_map_def split: if_splits)

lemma cell_value_tape_ref [simp]: "cell_value (tape_ref s) = cell_value s"
  by (auto simp: cell_value_def tape_ref_def tape_at_def fun_eq_iff split: option.splits)

lemma cell_value_update [simp]:
  "cell_value (s\<lparr>tape_ptr := p\<rparr>) = cell_value s"
  "cell_value (s\<lparr>instruction := is\<rparr>) = cell_value s"
  "cell_value (s\<lparr>instruction_ptr_current := ip\<rparr>) = cell_value s"
  "cell_value (s\<lparr>instruction_loop_ptr := st\<rparr>) = cell_value s"
  "cell_value (s\<lparr>jump_loop := j\<rparr>) = cell_value s"
  "cell_value (s\<lparr>stdin := i\<rparr>) = cell_value s"
  "cell_value (s\<lparr>stdout := out\<rparr>) = cell_value s"
  "cell_value (s\<lparr>calls := cs\<rparr>) = cell_value s"
  by (simp_all add: cell_value_def fun_eq_iff)

lemma tape_ref_fields [simp]:
  "tape_ptr (tape_ref s) = tape_ptr s"
  "instruction (tape_ref s) = instruction s"
  "instruction_ptr_current (tape_ref s) = instruction_ptr_current s"
  "instruction_loop_ptr (tape_ref s) = instruction_loop_ptr s"
  "jump_loop (tape_ref s) = jump_loop s"
  "stdin (tape_ref s) = stdin s"
  "stdout (tape_ref s) = stdout s"
  "calls (tape_ref s) = calls s"
  "tape_at (tape_ref s) = tape_at s"
  by (simp_all add: tape_ref_def tape_at_def cell_value_def)

lemma tape_store_fields [simp]:
  "tape_ptr (tape_store s x) = tape_ptr s"
  "instruction (tape_store s x) = instruction s"
  "instruction_ptr_current (tape_store s x) = instruction_ptr_current s"
  "instruction_loop_ptr (tape_store s x) = instruction_loop_ptr s"
  "jump_loop (tape_store s x) = jump_loop s"
  "stdin (tape_store s x) = stdin s"
  "stdout (tape_store s x) = stdout s"
  "calls (tape_store s x) = calls s"
  "tape_at (tape_store s x) = x"
  by (simp_all add: tape_store_def tape_at_def cell_value_def)

lemma tape_at_update [simp]:
  "tape_at (s\<lparr>instruction := is\<rparr>) = tape_at s"
  "tape_at (s\<lparr>instruction_ptr_current := ip\<rparr>) = tape_at s"
  "tape_at (s\<lparr>instruction_loop_ptr := st\<rparr>) = tape_at s"
  "tape_at (s\<lparr>jump_loop := j\<rparr>) = tape_at s"
  "tape_at (s\<lparr>stdin := i\<rparr>) = tape_at s"
  "tape_at (s\<lparr>stdout := out\<rparr>) = tape_at s"
  "tape_at (s\<lparr>calls := cs\<rparr>) = tape_at s"
  by (simp_all add: tape_at_def)

section \<open>The decoder\<close>

text \<open>
  C7. A symbol that is none of the eight operator characters decodes to \<open>monostate\<close>;
  the decoder returns the status as it was, so nothing is appended to the instruction
  log and the instruction pointer keeps its value. Executing the symbol returns (with any
  fuel of at least one unit) and changes no field of the status, nor the input and the
  output; only the history variable grows by the call itself.
\<close>

theorem unrecognized_symbol_is_noop:
  assumes "c \<notin> set ''+-><.,[]''"
  shows "next_op s c v = (monostate, s) \<and>
         run_vm (Suc n) s c v = Inr (s\<lparr>calls := calls s @ [(c, v)]\<rparr>)"
  using assms by (simp add: next_op_def map_of_bf_op_map_None)

theorem unrecognized_symbol_is_noop_witness:
  "CHR ''a'' \<notin> set ''+-><.,[]'' \<and>
   next_op (initial_status []) (CHR ''a'') False = (monostate, initial_status []) \<and>
   run_vm (Suc 0) (initial_status []) (CHR ''a'') False =
     Inr ((initial_status [])\<lparr>calls := calls (initial_status []) @ [(CHR ''a'', False)]\<rparr>)"
  using unrecognized_symbol_is_noop [of "CHR ''a''" "initial_status []" False 0] by simp

text \<open>
  C8. When the symbol is in the operator table and the decode is fresh, \<open>next_op\<close>
  returns the operation of the table, appends exactly that symbol to the instruction log
  and advances the instruction pointer by one. A replay decode leaves the instruction log
  as it was, for every symbol.
\<close>

theorem next_op_log_effect:
  assumes "map_of bf_op_map c = Some op"
  shows "next_op s c False =
           (op, s\<lparr>instruction := instruction s @ [c],
                  instruction_ptr_current := instruction_ptr_current s + 1\<rparr>) \<and>
         instruction (snd (next_op s c' True)) = instruction s"
  using assms by (simp add: next_op_def split: option.splits)

theorem next_op_log_effect_witness:
  "map_of bf_op_map (CHR ''['') = Some loop_start_op \<and>
   next_op (initial_status []) (CHR ''['') False =
     (loop_start_op,
      (initial_status [])\<lparr>instruction := instruction (initial_status []) @ [CHR ''[''],
         instruction_ptr_current := instruction_ptr_current (initial_status []) + 1\<rparr>) \<and>
   instruction (snd (next_op (initial_status []) (CHR ''+'') True)) =
     instruction (initial_status [])"
  using next_op_log_effect [of "CHR ''[''" loop_start_op "initial_status []" "CHR ''+''"]
  by simp

section \<open>Single operations\<close>

lemma run_vm_skipping:
  assumes "jump_loop s \<noteq> 0"
  shows "\<exists>s'. run_vm (Suc n) s c v = Inr s' \<and>
           cell_value s' = cell_value s \<and>
           tape_ptr s' = tape_ptr s \<and>
           instruction_loop_ptr s' = instruction_loop_ptr s \<and>
           stdin s' = stdin s \<and> stdout s' = stdout s \<and>
           instruction s' = instruction (snd (next_op s c v)) \<and>
           instruction_ptr_current s' = instruction_ptr_current (snd (next_op s c v)) \<and>
           jump_loop s' =
             (if c = CHR ''['' then jump_loop s + 1
              else if c = CHR '']'' then jump_loop s - 1
              else jump_loop s)"
proof (cases "map_of bf_op_map c")
  case None
  then have "c \<noteq> CHR ''['' \<and> c \<noteq> CHR '']''" by auto
  with None show ?thesis by (simp add: next_op_def)
next
  case (Some op)
  from map_of_bf_op_map_cases [OF this] assms show ?thesis
    by (elim disjE conjE) (simp_all add: next_op_def Let_def)
qed

text \<open>
  C2. While \<open>jump_loop\<close> is not zero (in particular while it is positive), executing any
  symbol, fresh or replayed, returns; the tape as a total mapping, the cell pointer, the
  loop stack, the input and the output are unchanged; the instruction log and pointer
  are what the decoder left; and \<open>jump_loop\<close> goes up by one on a loop start, down by one
  on a loop end and stays for every other symbol.
\<close>

theorem skipping_suppresses_operations:
  assumes "jump_loop s \<noteq> 0"
  shows "\<exists>s'. run_vm (Suc n) s c v = Inr s' \<and>
           cell_value s' = cell_value s \<and>
           tape_ptr s' = tape_ptr s \<and>
           instruction_loop_ptr s' = instruction_loop_ptr s \<and>
           stdin s' = stdin s \<and> stdout s' = stdout s \<and>
           instruction s' = instruction (snd (next_op s c v)) \<and>
           instruction_ptr_current s' = instruction_ptr_current (snd (next_op s c v)) \<and>
           jump_loop s' =
             (if c = CHR ''['' then jump_loop s + 1
              else if c = CHR '']'' then jump_loop s - 1
              else jump_loop s)"
  using assms by (rule run_vm_skipping)

theorem skipping_suppresses_operations_witness:
  "jump_loop ((initial_status [])\<lparr>jump_loop := 1\<rparr>) \<noteq> 0 \<and>
   (\<exists>s'. run_vm (Suc 0) ((initial_status [])\<lparr>jump_loop := 1\<rparr>) (CHR ''['') False = Inr s' \<and>
      cell_value s' = cell_value (initial_status []) \<and>
      tape_ptr s' = 0 \<and> instruction_loop_ptr s' = [] \<and>
      stdin s' = [] \<and> stdout s' = [] \<and>
      instruction s' = ''['' \<and> instruction_ptr_current s' = 0 \<and> jump_loop s' = 2)"
  using skipping_suppresses_operations
    [of "(initial_status [])\<lparr>jump_loop := 1\<rparr>" 0 "CHR ''[''" False]
  by (simp add: initial_status_def next_op_def cell_value_def)


lemma run_vm_plus:
  "jump_loop s = 0 \<Longrightarrow>
   \<exists>s'. run_vm (Suc n) s (CHR ''+'') v = Inr s' \<and> tape_at s' = tape_at s + 1 \<and>
        tape_ptr s' = tape_ptr s \<and> jump_loop s' = 0"
  by (simp add: next_op_def)

lemma run_vm_minus:
  "jump_loop s = 0 \<Longrightarrow>
   \<exists>s'. run_vm (Suc n) s (CHR ''-'') v = Inr s' \<and> tape_at s' = tape_at s - 1 \<and>
        tape_ptr s' = tape_ptr s \<and> jump_loop s' = 0"
  by (simp add: next_op_def)

lemma run_vm_right:
  "jump_loop s = 0 \<Longrightarrow>
   \<exists>s'. run_vm (Suc n) s (CHR ''>'') v = Inr s' \<and> tape s' = tape s \<and>
        tape_ptr s' = tape_ptr s + 1 \<and> jump_loop s' = 0"
  by (simp add: next_op_def)

lemma run_vm_left:
  "jump_loop s = 0 \<Longrightarrow>
   \<exists>s'. run_vm (Suc n) s (CHR ''<'') v = Inr s' \<and> tape s' = tape s \<and>
        tape_ptr s' = tape_ptr s - 1 \<and> jump_loop s' = 0"
  by (simp add: next_op_def)

section \<open>Straight-line programs\<close>

lemma feed_plus:
  "jump_loop s = 0 \<Longrightarrow>
   \<exists>s'. feed (Suc n) s (replicate N (CHR ''+'')) = Inr s' \<and>
        tape_at s' = tape_at s + of_nat N \<and> tape_ptr s' = tape_ptr s \<and> jump_loop s' = 0"
proof (induction N arbitrary: s)
  case 0
  then show ?case by simp
next
  case (Suc N)
  from run_vm_plus [OF Suc.prems, of n False] obtain s1 where
    s1: "run_vm (Suc n) s (CHR ''+'') False = Inr s1" "tape_at s1 = tape_at s + 1"
        "tape_ptr s1 = tape_ptr s" "jump_loop s1 = 0"
    by blast
  from Suc.IH [OF s1(4)] obtain s' where
    "feed (Suc n) s1 (replicate N (CHR ''+'')) = Inr s'"
    "tape_at s' = tape_at s1 + of_nat N" "tape_ptr s' = tape_ptr s1" "jump_loop s' = 0"
    by blast
  with s1 show ?case by simp
qed

lemma unat_dec_8: "unat ((x :: 8 word) - 1) = (unat x + 255) mod 256"
proof -
  have "x - 1 = x + 255" by simp
  then show ?thesis by (simp only: unat_word_ariths) simp
qed

text \<open>
  C5. With \<open>jump_loop\<close> at 0 and the current cell at 0, feeding \<open>N\<close> value-increment
  symbols returns, and the current cell then reads \<open>N mod 256\<close>. A single value-increment
  and a single value-decrement always return, 255 going to 0 and 0 going to 255: the cell
  after the operation is the cell before plus 1, respectively plus 255, modulo 256.
\<close>

theorem value_increment_wraps:
  assumes "jump_loop s = 0" and "tape_at s = 0" and "jump_loop t = 0"
  shows "(\<exists>s'. feed (Suc n) s (replicate N (CHR ''+'')) = Inr s' \<and>
            tape_ptr s' = tape_ptr s \<and> unat (tape_at s') = N mod 256) \<and>
         (\<exists>t'. run_vm (Suc n) t (CHR ''+'') v = Inr t' \<and>
            unat (tape_at t') = (unat (tape_at t) + 1) mod 256) \<and>
         (\<exists>t'. run_vm (Suc n) t (CHR ''-'') v = Inr t' \<and>
            unat (tape_at t') = (unat (tape_at t) + 255) mod 256)"
proof (intro conjI)
  from feed_plus [OF assms(1), of n N] assms(2)
  show "\<exists>s'. feed (Suc n) s (replicate N (CHR ''+'')) = Inr s' \<and>
            tape_ptr s' = tape_ptr s \<and> unat (tape_at s') = N mod 256"
    by (auto simp: unat_of_nat)
next
  from run_vm_plus [OF assms(3), of n v]
  show "\<exists>t'. run_vm (Suc n) t (CHR ''+'') v = Inr t' \<and>
            unat (tape_at t') = (unat (tape_at t) + 1) mod 256"
    by (auto simp: unat_word_ariths)
next
  from run_vm_minus [OF assms(3), of n v]
  show "\<exists>t'. run_vm (Suc n) t (CHR ''-'') v = Inr t' \<and>
            unat (tape_at t') = (unat (tape_at t) + 255) mod 256"
    by (auto simp: unat_dec_8)
qed

theorem value_increment_wraps_witness:
  "jump_loop (initial_status []) = 0 \<and> tape_at (initial_status []) = 0 \<and>
   (\<exists>s'. feed (Suc 0) (initial_status []) (replicate 300 (CHR ''+'')) = Inr s' \<and>
      tape_ptr s' = tape_ptr (initial_status []) \<and> unat (tape_at s') = 300 mod 256) \<and>
   (\<exists>t'. run_vm (Suc 0) (initial_status []) (CHR ''+'') False = Inr t' \<and>
      unat (tape_at t') = (unat (tape_at (initial_status [])) + 1) mod 256) \<and>
   (\<exists>t'. run_vm (Suc 0) (initial_status []) (CHR ''-'') False = Inr t' \<and>
      unat (tape_at t') = (unat (tape_at (initial_status [])) + 255) mod 256)"
proof -
  have h: "jump_loop (initial_status []) = 0" "tape_at (initial_status []) = 0"
    by (simp_all add: initial_status_def tape_at_def cell_value_def)
  from value_increment_wraps [OF h(1) h(2) h(1), of 0 300 False] h
  show ?thesis by blast
qed

lemma feed_moves:
  "set xs \<subseteq> {CHR ''>'', CHR ''<''} \<Longrightarrow> jump_loop s = 0 \<Longrightarrow>
   \<exists>s'. feed (Suc n) s xs = Inr s' \<and> tape s' = tape s \<and> jump_loop s' = 0 \<and>
        tape_ptr s' =
          tape_ptr s + of_nat (count_list xs (CHR ''>'')) - of_nat (count_list xs (CHR ''<''))"
proof (induction xs arbitrary: s)
  case Nil
  then show ?case by simp
next
  case (Cons x xs)
  then have x: "x = CHR ''>'' \<or> x = CHR ''<''" and xs: "set xs \<subseteq> {CHR ''>'', CHR ''<''}"
    by auto
  from x show ?case
  proof
    assume r: "x = CHR ''>''"
    from run_vm_right [OF Cons.prems(2), of n False] obtain s1 where
      s1: "run_vm (Suc n) s (CHR ''>'') False = Inr s1" "tape s1 = tape s"
          "tape_ptr s1 = tape_ptr s + 1" "jump_loop s1 = 0"
      by blast
    from Cons.IH [OF xs s1(4)] s1 r show ?thesis
      by auto
  next
    assume l: "x = CHR ''<''"
    from run_vm_left [OF Cons.prems(2), of n False] obtain s1 where
      s1: "run_vm (Suc n) s (CHR ''<'') False = Inr s1" "tape s1 = tape s"
          "tape_ptr s1 = tape_ptr s - 1" "jump_loop s1 = 0"
      by blast
    from Cons.IH [OF xs s1(4)] s1 l show ?thesis
      by auto
  qed
qed

text \<open>
  C9. With \<open>jump_loop\<close> at 0, feeding any sequence of pointer-increment and
  pointer-decrement symbols that has as many of the one as of the other returns, with the
  cell pointer at the index where it started and the tape untouched. No bound on the
  sequence or on the excursion is assumed: the pointer is a 32-bit \<^verbatim>\<open>int\<close>, and the
  increments and decrements cancel also where an excursion wraps.
\<close>

theorem pointer_moves_net_zero:
  assumes "set xs \<subseteq> {CHR ''>'', CHR ''<''}"
    and "count_list xs (CHR ''>'') = count_list xs (CHR ''<'')"
    and "jump_loop s = 0"
  shows "\<exists>s'. feed (Suc n) s xs = Inr s' \<and> tape_ptr s' = tape_ptr s \<and> tape s' = tape s"
  using feed_moves [OF assms(1) assms(3), of n] assms(2) by auto

theorem pointer_moves_net_zero_witness:
  "set ''<<<>>>>><<'' \<subseteq> {CHR ''>'', CHR ''<''} \<and>
   count_list ''<<<>>>>><<'' (CHR ''>'') = count_list ''<<<>>>>><<'' (CHR ''<'') \<and>
   jump_loop (initial_status []) = 0 \<and>
   (\<exists>s'. feed (Suc 0) (initial_status []) ''<<<>>>>><<'' = Inr s' \<and>
      tape_ptr s' = tape_ptr (initial_status []) \<and> tape s' = tape (initial_status []))"
proof -
  have h: "set ''<<<>>>>><<'' \<subseteq> {CHR ''>'', CHR ''<''}"
    "count_list ''<<<>>>>><<'' (CHR ''>'') = count_list ''<<<>>>>><<'' (CHR ''<'')"
    "jump_loop (initial_status []) = 0"
    by (simp_all add: initial_status_def)
  from pointer_moves_net_zero [OF h, of 0] h show ?thesis by blast
qed


section \<open>Fuel\<close>

text \<open>
  A call that returns, or that stops at undefined behaviour, does the same with any larger
  amount of fuel: the result of a run does not depend on the fuel that was enough for it.
\<close>

lemma fuel_mono:
  "\<forall>m\<ge>n. run_vm n s c v \<noteq> Inl Out_Of_Fuel \<longrightarrow> run_vm m s c v = run_vm n s c v"
  "\<forall>m\<ge>n. visit n op s \<noteq> Inl Out_Of_Fuel \<longrightarrow> visit m op s = visit n op s"
  "\<forall>m\<ge>n. loop_while n s \<noteq> Inl Out_Of_Fuel \<longrightarrow> loop_while m s = loop_while n s"
  "\<forall>m\<ge>n. replay_while n cur s \<noteq> Inl Out_Of_Fuel \<longrightarrow> replay_while m cur s = replay_while n cur s"
proof (induction n s c v and n op s and n s and n cur s rule: run_vm_visit_loop_while_replay_while.induct)
  case (2 n status char_op via_loop)
  show ?case
  proof (intro allI impI)
    fix m assume "Suc n \<le> m" and ne: "run_vm (Suc n) status char_op via_loop \<noteq> Inl Out_Of_Fuel"
    then obtain m' where m: "m = Suc m'" "n \<le> m'" by (cases m) auto
    obtain op y where d: "next_op (status\<lparr>calls := calls status @ [(char_op, via_loop)]\<rparr>) char_op via_loop = (op, y)"
      by (cases "next_op (status\<lparr>calls := calls status @ [(char_op, via_loop)]\<rparr>) char_op via_loop")
    from ne d have "visit n op y \<noteq> Inl Out_Of_Fuel" by simp
    with "2.IH" [OF d [symmetric]] m have "visit m' op y = visit n op y" by blast
    with d m show "run_vm m status char_op via_loop = run_vm (Suc n) status char_op via_loop"
      by simp
  qed
next
  case (10 n status)
  show ?case
  proof (intro allI impI)
    fix m assume m: "n \<le> m" and ne: "visit n loop_end_op status \<noteq> Inl Out_Of_Fuel"
    show "visit m loop_end_op status = visit n loop_end_op status"
    proof (cases "jump_loop status = 0 \<and> tape_at (tape_ref status) \<noteq> 0")
      case False
      then show ?thesis by (auto simp: Let_def)
    next
      case True
      with ne have "loop_while n (tape_ref status) \<noteq> Inl Out_Of_Fuel"
        by (auto simp: Let_def split: sum.splits)
      with "10.IH" [of "tape_ref status"] True m
      have "loop_while m (tape_ref status) = loop_while n (tape_ref status)" by blast
      with True show ?thesis by (simp add: Let_def)
    qed
  qed
next
  case (13 n status)
  show ?case
  proof (intro allI impI)
    fix m assume "Suc n \<le> m" and ne: "loop_while (Suc n) status \<noteq> Inl Out_Of_Fuel"
    then obtain m' where m: "m = Suc m'" "n \<le> m'" by (cases m) auto
    show "loop_while m status = loop_while (Suc n) status"
    proof (cases "tape_at (tape_ref status) \<noteq> 0")
      case False
      with m show ?thesis by (simp add: Let_def)
    next
      case True
      show ?thesis
      proof (cases "instruction_loop_ptr (tape_ref status)")
        case Nil
        with True m show ?thesis by (simp add: Let_def)
      next
        case (Cons t st)
        let ?s1 = "tape_ref status"
        let ?cur = "instruction_ptr_current ?s1"
        let ?s2 = "?s1\<lparr>instruction_ptr_current := t + 1\<rparr>"
        from ne True Cons have r: "replay_while n ?cur ?s2 \<noteq> Inl Out_Of_Fuel"
          by (auto simp: Let_def split: sum.splits)
        with "13.IH"(1) [OF refl True refl Cons] m
        have e1: "replay_while m' ?cur ?s2 = replay_while n ?cur ?s2" by blast
        show ?thesis
        proof (cases "replay_while n ?cur ?s2")
          case (Inl e)
          with e1 True Cons m show ?thesis by (simp add: Let_def)
        next
          case (Inr b)
          with ne True Cons
          have "loop_while n (b\<lparr>instruction_ptr_current := ?cur\<rparr>) \<noteq> Inl Out_Of_Fuel"
            by (auto simp: Let_def)
          with "13.IH"(2) [OF refl True refl Cons Inr] m
          have "loop_while m' (b\<lparr>instruction_ptr_current := ?cur\<rparr>) =
                loop_while n (b\<lparr>instruction_ptr_current := ?cur\<rparr>)" by blast
          with Inr e1 True Cons m show ?thesis by (simp add: Let_def)
        qed
      qed
    qed
  qed
next
  case (15 n current status)
  show ?case
  proof (intro allI impI)
    fix m assume "Suc n \<le> m" and ne: "replay_while (Suc n) current status \<noteq> Inl Out_Of_Fuel"
    then obtain m' where m: "m = Suc m'" "n \<le> m'" by (cases m) auto
    show "replay_while m current status = replay_while (Suc n) current status"
    proof (cases "instruction_ptr_current status <s current")
      case False
      with m show ?thesis by simp
    next
      case True
      show ?thesis
      proof (cases "instruction_at status")
        case (Inl e)
        with True m show ?thesis by simp
      next
        case c: (Inr c)
        from ne True c have r: "run_vm n status c True \<noteq> Inl Out_Of_Fuel"
          by (auto split: sum.splits)
        with "15.IH"(1) [OF True c] m
        have e1: "run_vm m' status c True = run_vm n status c True" by blast
        show ?thesis
        proof (cases "run_vm n status c True")
          case (Inl e)
          with e1 True c m show ?thesis by simp
        next
          case (Inr b)
          let ?b = "b\<lparr>instruction_ptr_current := instruction_ptr_current b + 1\<rparr>"
          from ne True c Inr
          have "replay_while n current ?b \<noteq> Inl Out_Of_Fuel" by auto
          with "15.IH"(2) [OF True c Inr] m
          have "replay_while m' current ?b = replay_while n current ?b" by blast
          with Inr e1 True c m show ?thesis by simp
        qed
      qed
    qed
  qed
qed simp_all

lemma run_vm_fuel:
  "run_vm n s c v = Inr s' \<Longrightarrow> n \<le> m \<Longrightarrow> run_vm m s c v = Inr s'"
  using fuel_mono(1) [of n s c v] by auto

lemma feed_fuel:
  "feed n s xs = Inr s' \<Longrightarrow> n \<le> m \<Longrightarrow> feed m s xs = Inr s'"
proof (induction xs arbitrary: s)
  case Nil
  then show ?case by simp
next
  case (Cons x xs)
  from Cons.prems(1) obtain s1 where s1: "run_vm n s x False = Inr s1" "feed n s1 xs = Inr s'"
    by (auto split: sum.splits)
  from run_vm_fuel [OF s1(1) Cons.prems(2)] Cons.IH [OF s1(2) Cons.prems(2)]
  show ?case by simp
qed

lemma main_loop_fuel:
  "main_loop n s = Inr s' \<Longrightarrow> n \<le> m \<Longrightarrow> main_loop m s = Inr s'"
proof (induction n arbitrary: s m)
  case 0
  then show ?case by simp
next
  case (Suc n)
  from Suc.prems(2) obtain m' where m: "m = Suc m'" "n \<le> m'" by (cases m) auto
  show ?case
  proof (cases "dropWhile isspace (stdin s)")
    case Nil
    with Suc.prems(1) m show ?thesis by (simp del: dropWhile_eq_Nil_conv)
  next
    case (Cons c rest)
    with Suc.prems(1) obtain s1 where
      s1: "run_vm n (s\<lparr>stdin := rest\<rparr>) c False = Inr s1" "main_loop n s1 = Inr s'"
      by (auto split: sum.splits)
    from run_vm_fuel [OF s1(1) m(2)] Suc.IH [OF s1(2) m(2)] Cons m
    show ?thesis by simp
  qed
qed

section \<open>The history variable\<close>

text \<open>
  The history of calls has no influence on a run: started with any other history, every
  function returns the same error or the same status up to the field \<open>calls\<close>.
\<close>

lemma calls_commute:
  "next_op (s\<lparr>calls := x\<rparr>) c v = (fst (next_op s c v), (snd (next_op s c v))\<lparr>calls := x\<rparr>)"
  "tape_ref (s\<lparr>calls := x\<rparr>) = (tape_ref s)\<lparr>calls := x\<rparr>"
  "tape_store (s\<lparr>calls := x\<rparr>) w = (tape_store s w)\<lparr>calls := x\<rparr>"
  "read_char (s\<lparr>calls := x\<rparr>) = (read_char s)\<lparr>calls := x\<rparr>"
  "pop_loop (s\<lparr>calls := x\<rparr>) = map_sum id (\<lambda>s'. s'\<lparr>calls := x\<rparr>) (pop_loop s)"
  "instruction_at (s\<lparr>calls := x\<rparr>) = instruction_at s"
  by (simp_all add: next_op_def tape_ref_def tape_store_def read_char_def pop_loop_def
      instruction_at_def tape_at_def cell_value_def Let_def split: option.splits list.splits)

lemma calls_swap:
  "s\<lparr>tape := m, calls := x\<rparr> = (s\<lparr>calls := x, tape := m\<rparr> :: machine)"
  "s\<lparr>tape_ptr := p, calls := x\<rparr> = (s\<lparr>calls := x, tape_ptr := p\<rparr> :: machine)"
  "s\<lparr>instruction := is, calls := x\<rparr> = (s\<lparr>calls := x, instruction := is\<rparr> :: machine)"
  "s\<lparr>instruction_ptr_current := ip, calls := x\<rparr> =
     (s\<lparr>calls := x, instruction_ptr_current := ip\<rparr> :: machine)"
  "s\<lparr>instruction_loop_ptr := st, calls := x\<rparr> =
     (s\<lparr>calls := x, instruction_loop_ptr := st\<rparr> :: machine)"
  "s\<lparr>jump_loop := j, calls := x\<rparr> = (s\<lparr>calls := x, jump_loop := j\<rparr> :: machine)"
  "s\<lparr>stdin := i, calls := x\<rparr> = (s\<lparr>calls := x, stdin := i\<rparr> :: machine)"
  "s\<lparr>stdout := out, calls := x\<rparr> = (s\<lparr>calls := x, stdout := out\<rparr> :: machine)"
  by simp_all

lemma calls_irrelevant:
  "\<forall>cs. \<exists>cs'. run_vm n (s\<lparr>calls := cs\<rparr>) c v =
      map_sum id (\<lambda>s'. s'\<lparr>calls := cs'\<rparr>) (run_vm n s c v)"
  "\<forall>cs. \<exists>cs'. visit n op (s\<lparr>calls := cs\<rparr>) =
      map_sum id (\<lambda>s'. s'\<lparr>calls := cs'\<rparr>) (visit n op s)"
  "\<forall>cs. \<exists>cs'. loop_while n (s\<lparr>calls := cs\<rparr>) =
      map_sum id (\<lambda>s'. s'\<lparr>calls := cs'\<rparr>) (loop_while n s)"
  "\<forall>cs. \<exists>cs'. replay_while n cur (s\<lparr>calls := cs\<rparr>) =
      map_sum id (\<lambda>s'. s'\<lparr>calls := cs'\<rparr>) (replay_while n cur s)"
proof (induction n s c v and n op s and n s and n cur s
    rule: run_vm_visit_loop_while_replay_while.induct)
  case (2 n status char_op via_loop)
  show ?case
  proof
    fix cs
    let ?e = "(char_op, via_loop)"
    obtain op y where d: "next_op (status\<lparr>calls := calls status @ [?e]\<rparr>) char_op via_loop = (op, y)"
      by (cases "next_op (status\<lparr>calls := calls status @ [?e]\<rparr>) char_op via_loop")
    from d have d': "next_op (status\<lparr>calls := cs @ [?e]\<rparr>) char_op via_loop =
        (op, y\<lparr>calls := cs @ [?e]\<rparr>)"
      by (auto simp: next_op_def split: option.splits if_splits)
    from "2.IH" [OF d [symmetric]] obtain cs' where
      "visit n op (y\<lparr>calls := cs @ [?e]\<rparr>) =
         map_sum id (\<lambda>s'. s'\<lparr>calls := cs'\<rparr>) (visit n op y)"
      by blast
    with d d' show "\<exists>cs'. run_vm (Suc n) (status\<lparr>calls := cs\<rparr>) char_op via_loop =
        map_sum id (\<lambda>s'. s'\<lparr>calls := cs'\<rparr>) (run_vm (Suc n) status char_op via_loop)"
      by (simp del: visit.simps) blast
  qed
next
  case (10 n status)
  show ?case
  proof
    fix cs
    show "\<exists>cs'. visit n loop_end_op (status\<lparr>calls := cs\<rparr>) =
        map_sum id (\<lambda>s'. s'\<lparr>calls := cs'\<rparr>) (visit n loop_end_op status)"
    proof (cases "jump_loop status = 0 \<and> tape_at (tape_ref status) \<noteq> 0")
      case False
      then show ?thesis by (auto simp: Let_def calls_commute intro: exI [of _ cs])
    next
      case True
      from True have c1: "\<not> jump_loop status \<noteq> 0" "tape_at (tape_ref status) \<noteq> 0"
        by simp_all
      from "10.IH" [OF c1(1) refl c1(2)] obtain cs1 where
        l: "loop_while n ((tape_ref status)\<lparr>calls := cs\<rparr>) =
           map_sum id (\<lambda>s'. s'\<lparr>calls := cs1\<rparr>) (loop_while n (tape_ref status))"
        by blast
      show ?thesis
      proof (cases "loop_while n (tape_ref status)")
        case (Inl e)
        with l True show ?thesis by (simp add: Let_def calls_commute calls_swap)
      next
        case (Inr s2)
        with l True show ?thesis
          by (cases "pop_loop s2") (auto simp: Let_def calls_commute intro: exI [of _ cs1])
      qed
    qed
  qed
next
  case (13 n status)
  show ?case
  proof
    fix cs
    let ?s1 = "tape_ref status"
    let ?cur = "instruction_ptr_current ?s1"
    show "\<exists>cs'. loop_while (Suc n) (status\<lparr>calls := cs\<rparr>) =
        map_sum id (\<lambda>s'. s'\<lparr>calls := cs'\<rparr>) (loop_while (Suc n) status)"
    proof (cases "tape_at ?s1 \<noteq> 0")
      case False
      then show ?thesis by (auto simp: Let_def calls_commute intro: exI [of _ cs])
    next
      case True
      show ?thesis
      proof (cases "instruction_loop_ptr ?s1")
        case Nil
        with True show ?thesis by (simp add: Let_def calls_commute calls_swap)
      next
        case (Cons t st)
        let ?s2 = "?s1\<lparr>instruction_ptr_current := t + 1\<rparr>"
        from "13.IH"(1) [OF refl True refl Cons] obtain cs1 where
          r: "replay_while n ?cur (?s2\<lparr>calls := cs\<rparr>) =
              map_sum id (\<lambda>s'. s'\<lparr>calls := cs1\<rparr>) (replay_while n ?cur ?s2)"
          by blast
        show ?thesis
        proof (cases "replay_while n ?cur ?s2")
          case (Inl e)
          with r True Cons show ?thesis by (simp add: Let_def calls_commute calls_swap)
        next
          case (Inr b)
          from "13.IH"(2) [OF refl True refl Cons Inr] obtain cs2 where
            "loop_while n (b\<lparr>instruction_ptr_current := ?cur, calls := cs1\<rparr>) =
              map_sum id (\<lambda>s'. s'\<lparr>calls := cs2\<rparr>)
                (loop_while n (b\<lparr>instruction_ptr_current := ?cur\<rparr>))"
            by blast
          with Inr r True Cons show ?thesis
            by (simp add: Let_def calls_commute calls_swap) blast
        qed
      qed
    qed
  qed
next
  case (15 n current status)
  show ?case
  proof
    fix cs
    show "\<exists>cs'. replay_while (Suc n) current (status\<lparr>calls := cs\<rparr>) =
        map_sum id (\<lambda>s'. s'\<lparr>calls := cs'\<rparr>) (replay_while (Suc n) current status)"
    proof (cases "instruction_ptr_current status <s current")
      case False
      then show ?thesis by (auto intro: exI [of _ cs])
    next
      case True
      show ?thesis
      proof (cases "instruction_at status")
        case (Inl e)
        with True show ?thesis by (simp add: calls_commute)
      next
        case c: (Inr c)
        from "15.IH"(1) [OF True c] obtain cs1 where
          r: "run_vm n (status\<lparr>calls := cs\<rparr>) c True =
              map_sum id (\<lambda>s'. s'\<lparr>calls := cs1\<rparr>) (run_vm n status c True)"
          by blast
        show ?thesis
        proof (cases "run_vm n status c True")
          case (Inl e)
          with r True c show ?thesis by (simp add: calls_commute)
        next
          case (Inr b)
          from "15.IH"(2) [OF True c Inr] obtain cs2 where
            "replay_while n current
               (b\<lparr>instruction_ptr_current := instruction_ptr_current b + 1, calls := cs1\<rparr>) =
             map_sum id (\<lambda>s'. s'\<lparr>calls := cs2\<rparr>)
               (replay_while n current
                 (b\<lparr>instruction_ptr_current := instruction_ptr_current b + 1\<rparr>))"
            by blast
          with Inr r True c show ?thesis
            by (simp add: calls_commute calls_swap) blast
        qed
      qed
    qed
  qed
qed (auto simp: Let_def calls_commute calls_swap)

section \<open>Concrete programs\<close>

lemma scenario_eval:
  "map_sum id (\<lambda>s. (cell_value s 0, cell_value s 1, tape_ptr s))
     (feed 30 (initial_status []) ''++>+++++[<+>-]<'') = Inr (7, 0, 0)"
  by code_simp

lemma scenario_main_eval:
  "map_sum id (\<lambda>s. (cell_value s 0, cell_value s 1, tape_ptr s))
     (main_loop 30 (initial_status ''++>+++++[<+>-]<'')) = Inr (7, 0, 0)"
  by code_simp

text \<open>
  C4. From the freshly initialised machine, feeding \<^verbatim>\<open>++>+++++[<+>-]<\<close> symbol by symbol
  returns for every fuel from 30 on, with cell 0 at 7, cell 1 at 0 and the cell pointer
  at 0; so does the loop of \<^verbatim>\<open>main\<close> reading the same text from standard input.
\<close>

theorem concrete_scenario:
  assumes "30 \<le> n"
  shows "(\<exists>s. feed n (initial_status []) ''++>+++++[<+>-]<'' = Inr s \<and>
            cell_value s 0 = 7 \<and> cell_value s 1 = 0 \<and> tape_ptr s = 0) \<and>
         (\<exists>s. main_loop n (initial_status ''++>+++++[<+>-]<'') = Inr s \<and>
            cell_value s 0 = 7 \<and> cell_value s 1 = 0 \<and> tape_ptr s = 0)"
proof
  from scenario_eval obtain s where
    s: "feed 30 (initial_status []) ''++>+++++[<+>-]<'' = Inr s"
       "(cell_value s 0, cell_value s 1, tape_ptr s) = (7, 0, 0)"
    by (cases "feed 30 (initial_status []) ''++>+++++[<+>-]<''") auto
  from feed_fuel [OF s(1) assms] s(2)
  show "\<exists>s. feed n (initial_status []) ''++>+++++[<+>-]<'' = Inr s \<and>
            cell_value s 0 = 7 \<and> cell_value s 1 = 0 \<and> tape_ptr s = 0"
    by auto
next
  from scenario_main_eval obtain s where
    s: "main_loop 30 (initial_status ''++>+++++[<+>-]<'') = Inr s"
       "(cell_value s 0, cell_value s 1, tape_ptr s) = (7, 0, 0)"
    by (cases "main_loop 30 (initial_status ''++>+++++[<+>-]<'')") auto
  from main_loop_fuel [OF s(1) assms] s(2)
  show "\<exists>s. main_loop n (initial_status ''++>+++++[<+>-]<'') = Inr s \<and>
            cell_value s 0 = 7 \<and> cell_value s 1 = 0 \<and> tape_ptr s = 0"
    by auto
qed

theorem concrete_scenario_witness:
  "(30::nat) \<le> 30 \<and>
   (\<exists>s. feed 30 (initial_status []) ''++>+++++[<+>-]<'' = Inr s \<and>
      cell_value s 0 = 7 \<and> cell_value s 1 = 0 \<and> tape_ptr s = 0) \<and>
   (\<exists>s. main_loop 30 (initial_status ''++>+++++[<+>-]<'') = Inr s \<and>
      cell_value s 0 = 7 \<and> cell_value s 1 = 0 \<and> tape_ptr s = 0)"
  using concrete_scenario [of 30] by simp

lemma stale_eval:
  "map_sum id (\<lambda>s. (tape_at s, jump_loop s, instruction_loop_ptr s))
     (feed 1 (initial_status []) ''+[-]'') = Inr (0, 0, [1])"
  by code_simp

lemma stale_nested_eval:
  "map_sum id (\<lambda>s. (cell_value s 0, cell_value s 1, tape_ptr s, instruction_loop_ptr s))
     (feed 10 (initial_status []) ''++[->+[-]<]'') = Inr (0, 0, - 1, [2])"
  by code_simp

text \<open>
  C1. The loop-end handler pops the loop stack only inside the branch taken when the
  current cell is not 0 on arrival. In \<^verbatim>\<open>+[-]\<close> the loop start pushes its index 1, the
  body brings the cell to 0, and the loop end, reached with \<open>jump_loop\<close> at 0 and the
  cell at 0, returns with the entry 1 still on the stack. The entry left behind is then
  taken for the origin of an enclosing loop: \<^verbatim>\<open>++[->+[-]<]\<close> ends with the cell pointer
  at -1, where every loop of the program is balanced in its pointer moves.
\<close>

theorem loop_end_at_zero_keeps_origin:
  "(\<exists>s. feed 1 (initial_status []) ''+[-]'' = Inr s \<and> tape_at s = 0 \<and>
       jump_loop s = 0 \<and> instruction_loop_ptr s = [1]) \<and>
   (\<exists>s. feed 10 (initial_status []) ''++[->+[-]<]'' = Inr s \<and>
       cell_value s 0 = 0 \<and> cell_value s 1 = 0 \<and> tape_ptr s = - 1 \<and>
       instruction_loop_ptr s = [2])"
proof
  from stale_eval obtain s where
    "feed 1 (initial_status []) ''+[-]'' = Inr s"
    "(tape_at s, jump_loop s, instruction_loop_ptr s) = (0, 0, [1])"
    by (cases "feed 1 (initial_status []) ''+[-]''") auto
  then show "\<exists>s. feed 1 (initial_status []) ''+[-]'' = Inr s \<and> tape_at s = 0 \<and>
       jump_loop s = 0 \<and> instruction_loop_ptr s = [1]"
    by auto
next
  from stale_nested_eval obtain s where
    "feed 10 (initial_status []) ''++[->+[-]<]'' = Inr s"
    "(cell_value s 0, cell_value s 1, tape_ptr s, instruction_loop_ptr s) = (0, 0, - 1, [2])"
    by (cases "feed 10 (initial_status []) ''++[->+[-]<]''") auto
  then show "\<exists>s. feed 10 (initial_status []) ''++[->+[-]<]'' = Inr s \<and>
       cell_value s 0 = 0 \<and> cell_value s 1 = 0 \<and> tape_ptr s = - 1 \<and>
       instruction_loop_ptr s = [2]"
    by auto
qed


section \<open>Word arithmetic of the instruction pointer\<close>

lemma sint_of_nat_small:
  assumes "m < 2 ^ 31"
  shows "sint (of_nat m :: 32 word) = int m"
proof -
  have "sint (word_of_int (int m) :: 32 word) = signed_take_bit 31 (int m)"
    unfolding sint_sbintrunc' by simp
  also from assms have "\<dots> = int m"
    by (intro signed_take_bit_int_eq_self) auto
  finally show ?thesis by simp
qed

lemma sint_of_nat_minus_1:
  assumes "n \<le> 2 ^ 31"
  shows "sint (of_nat n - 1 :: 32 word) = int n - 1"
proof (cases n)
  case 0
  then show ?thesis by simp
next
  case (Suc m)
  with assms have "m < 2 ^ 31" by simp
  from sint_of_nat_small [OF this] Suc show ?thesis by simp
qed

lemma of_nat_Suc_neq_0:
  "Suc d < 2 ^ 32 \<Longrightarrow> (of_nat (Suc d) :: 32 word) \<noteq> 0"
  using of_nat_neq_0 [of "Suc d", where 'a = 32] by simp


section \<open>Replaying a single value-decrement\<close>

lemma instruction_at_cong:
  "instruction s1 = instruction s2 \<Longrightarrow> instruction_ptr_current s1 = instruction_ptr_current s2 \<Longrightarrow>
   instruction_at s1 = instruction_at s2"
  by (simp add: instruction_at_def Let_def)

lemma tape_at_tape_update [simp]:
  "tape_at (s\<lparr>tape := m\<rparr>) = (case m (tape_ptr s) of None \<Rightarrow> 0 | Some v \<Rightarrow> v)"
  by (simp add: tape_at_def cell_value_def)

lemma instruction_ptr_current_same:
  assumes "instruction_ptr_current (x :: machine) = p"
  shows "x\<lparr>instruction_ptr_current := p\<rparr> = x"
proof -
  have "x\<lparr>instruction_ptr_current := instruction_ptr_current x\<rparr> = x" by simp
  with assms show ?thesis by simp
qed

lemma run_vm_minus_replay:
  assumes "jump_loop s = 0"
  shows "run_vm (Suc n) s (CHR ''-'') True =
           Inr (s\<lparr>tape := (tape s)(tape_ptr s \<mapsto> tape_at s - 1),
                  calls := calls s @ [(CHR ''-'', True)]\<rparr>)"
  using assms by (simp add: next_op_def tape_store_def)

lemma replay_single_minus:
  assumes "jump_loop s = 0"
    and "instruction_ptr_current s = t + 1"
    and "instruction_at s = Inr (CHR ''-'')"
    and "t + 1 <s t + 2"
  shows "replay_while (Suc (Suc n)) (t + 2) s =
           Inr (s\<lparr>tape := (tape s)(tape_ptr s \<mapsto> tape_at s - 1),
                  instruction_ptr_current := t + 2,
                  calls := calls s @ [(CHR ''-'', True)]\<rparr>)"
proof -
  have "replay_while (Suc (Suc n)) (t + 2) s =
          replay_while (Suc n) (t + 2)
            (s\<lparr>tape := (tape s)(tape_ptr s \<mapsto> tape_at s - 1),
               instruction_ptr_current := t + 2,
               calls := calls s @ [(CHR ''-'', True)]\<rparr>)"
    using assms run_vm_minus_replay [OF assms(1), of n]
    by (simp del: run_vm.simps add: add.assoc)
  then show ?thesis by simp
qed

lemma loop_while_countdown:
  assumes "jump_loop s = 0"
    and "instruction_loop_ptr s = t # st"
    and "instruction_ptr_current s = t + 2"
    and "instruction_at (s\<lparr>instruction_ptr_current := t + 1\<rparr>) = Inr (CHR ''-'')"
    and "t + 1 <s t + 2"
    and "unat (tape_at s) = j"
    and "j + 3 \<le> f"
  shows "loop_while f s =
           Inr (s\<lparr>tape := (tape s)(tape_ptr s \<mapsto> 0),
                  calls := calls s @ replicate j (CHR ''-'', True)\<rparr>)"
  using assms
proof (induction j arbitrary: s f)
  case 0
  from "0.prems"(7) obtain f' where f: "f = Suc f'" by (cases f) auto
  from "0.prems"(6) have z: "tape_at s = 0" by (simp add: unat_eq_0)
  then have "loop_while (Suc f') s = Inr (tape_ref s)" by (simp add: Let_def)
  also from z have "tape_ref s = s\<lparr>tape := (tape s)(tape_ptr s \<mapsto> 0)\<rparr>"
    by (simp add: tape_ref_def)
  finally have e: "loop_while (Suc f') s = Inr (s\<lparr>tape := (tape s)(tape_ptr s \<mapsto> 0)\<rparr>)" .
  have "s\<lparr>tape := (tape s)(tape_ptr s \<mapsto> 0),
           calls := calls s @ replicate 0 (CHR ''-'', True)\<rparr> =
        s\<lparr>tape := (tape s)(tape_ptr s \<mapsto> 0)\<rparr>"
    by simp
  with e show ?case unfolding f by (simp only:)
next
  case (Suc j)
  from Suc.prems(7) obtain f1 where f: "f = Suc (Suc (Suc f1))" "j + 3 \<le> Suc (Suc f1)"
    by (cases f; cases "f - 1"; cases "f - 2") auto
  from Suc.prems(6) have nz: "tape_at s \<noteq> 0" by auto
  let ?s1 = "(tape_ref s)\<lparr>instruction_ptr_current := t + 1\<rparr>"
  have at: "instruction_at ?s1 = Inr (CHR ''-'')"
    using Suc.prems(4) instruction_at_cong [of ?s1 "s\<lparr>instruction_ptr_current := t + 1\<rparr>"]
    by simp
  have r: "replay_while (Suc (Suc f1)) (t + 2) ?s1 =
          Inr (?s1\<lparr>tape := (tape ?s1)(tape_ptr ?s1 \<mapsto> tape_at ?s1 - 1),
                  instruction_ptr_current := t + 2,
                  calls := calls ?s1 @ [(CHR ''-'', True)]\<rparr>)"
    by (rule replay_single_minus) (use Suc.prems at in simp_all)
  let ?s3 = "s\<lparr>tape := (tape s)(tape_ptr s \<mapsto> tape_at s - 1),
               calls := calls s @ [(CHR ''-'', True)]\<rparr>"
  have "?s3\<lparr>instruction_ptr_current := t + 2\<rparr> = ?s3"
    by (rule instruction_ptr_current_same) (use Suc.prems(3) in simp)
  moreover have "loop_while f s =
      loop_while (Suc (Suc f1)) (?s3\<lparr>instruction_ptr_current := t + 2\<rparr>)"
    unfolding f(1) loop_while.simps(2) [of "Suc (Suc f1)" s]
    using nz Suc.prems(2,3) r
    by (simp add: Let_def tape_ref_def del: replay_while.simps loop_while.simps)
  ultimately have step: "loop_while f s = loop_while (Suc (Suc f1)) ?s3"
    by (simp only:)
  have ih: "loop_while (Suc (Suc f1)) ?s3 =
          Inr (?s3\<lparr>tape := (tape ?s3)(tape_ptr ?s3 \<mapsto> 0),
                  calls := calls ?s3 @ replicate j (CHR ''-'', True)\<rparr>)"
  proof (rule Suc.IH)
    show "jump_loop ?s3 = 0" using Suc.prems(1) by simp
    show "instruction_loop_ptr ?s3 = t # st" using Suc.prems(2) by simp
    show "instruction_ptr_current ?s3 = t + 2" using Suc.prems(3) by simp
    show "instruction_at (?s3\<lparr>instruction_ptr_current := t + 1\<rparr>) = Inr (CHR ''-'')"
      using Suc.prems(4)
        instruction_at_cong [of "?s3\<lparr>instruction_ptr_current := t + 1\<rparr>"
          "s\<lparr>instruction_ptr_current := t + 1\<rparr>"]
      by simp
    show "t + 1 <s t + 2" by (rule Suc.prems(5))
    show "unat (tape_at ?s3) = j"
      using unat_minus_one [OF nz] Suc.prems(6) by (simp add: tape_at_def cell_value_def)
    show "j + 3 \<le> Suc (Suc f1)" by (rule f(2))
  qed
  have final: "?s3\<lparr>tape := (tape ?s3)(tape_ptr ?s3 \<mapsto> 0),
                  calls := calls ?s3 @ replicate j (CHR ''-'', True)\<rparr> =
               s\<lparr>tape := (tape s)(tape_ptr s \<mapsto> 0),
                  calls := calls s @ replicate (Suc j) (CHR ''-'', True)\<rparr>"
    by simp
  show ?case by (simp only: step ih final)
qed

lemma run_vm_loop_end_countdown:
  assumes "jump_loop s = 0"
    and "instruction_loop_ptr s = t # st"
    and "instruction_ptr_current s = t + 1"
    and "0 \<le> sint (t + 1)"
    and "nat (sint (t + 1)) < length (instruction s)"
    and "instruction s ! nat (sint (t + 1)) = CHR ''-''"
    and "t + 1 <s t + 2"
    and "unat (tape_at s) = j"
    and "j + 4 \<le> f"
  shows "\<exists>s'. run_vm f s (CHR '']'') False = Inr s' \<and>
           tape_at s' = 0 \<and> tape_ptr s' = tape_ptr s \<and>
           instruction s' = instruction s @ '']'' \<and>
           instruction_ptr_current s' = t + 2 \<and>
           instruction_loop_ptr s' = (if j = 0 then t # st else st) \<and>
           jump_loop s' = 0 \<and> stdin s' = stdin s \<and> stdout s' = stdout s \<and>
           calls s' = calls s @ (CHR '']'', False) # replicate j (CHR ''-'', True)"
proof -
  from assms(9) obtain f' where f: "f = Suc f'" "j + 3 \<le> f'" by (cases f) auto
  let ?s0 = "s\<lparr>calls := calls s @ [(CHR '']'', False)],
               instruction := instruction s @ '']'',
               instruction_ptr_current := t + 2\<rparr>"
  have d: "run_vm f s (CHR '']'') False = visit f' loop_end_op ?s0"
    using assms(3) by (simp add: f next_op_def add.assoc del: visit.simps)
  show ?thesis
  proof (cases "j = 0")
    case True
    with assms(8) have "tape_at s = 0" by (simp add: unat_eq_0)
    with assms(1,2) True show ?thesis unfolding d by (simp add: Let_def)
  next
    case False
    with assms(8) have nz: "tape_at s \<noteq> 0" by auto
    let ?s1 = "tape_ref ?s0"
    have lw: "loop_while f' ?s1 =
            Inr (?s1\<lparr>tape := (tape ?s1)(tape_ptr ?s1 \<mapsto> 0),
                    calls := calls ?s1 @ replicate j (CHR ''-'', True)\<rparr>)"
    proof (rule loop_while_countdown)
      show "jump_loop ?s1 = 0" using assms(1) by simp
      show "instruction_loop_ptr ?s1 = t # st" using assms(2) by simp
      show "instruction_ptr_current ?s1 = t + 2" by simp
      show "instruction_at (?s1\<lparr>instruction_ptr_current := t + 1\<rparr>) = Inr (CHR ''-'')"
        using assms(4,5,6) by (simp add: instruction_at_def nth_append)
      show "t + 1 <s t + 2" by (rule assms(7))
      show "unat (tape_at ?s1) = j" using assms(8) by simp
      show "j + 3 \<le> f'" by (rule f(2))
    qed
    have v: "visit f' loop_end_op ?s0 =
            pop_loop (?s1\<lparr>tape := (tape ?s1)(tape_ptr ?s1 \<mapsto> 0),
                    calls := calls ?s1 @ replicate j (CHR ''-'', True)\<rparr>)"
      using assms(1) nz by (simp add: Let_def lw del: loop_while.simps)
    show ?thesis unfolding d v using assms(1,2) False by (simp add: pop_loop_def)
  qed
qed


section \<open>The instruction pointer and the instruction log\<close>

lemma recognized_iff:
  "map_of bf_op_map c \<noteq> None \<longleftrightarrow> c \<in> set ''+-><.,[]''"
  by (auto simp: bf_op_map_def)

lemma pop_loop_log:
  "pop_loop s = Inr s' \<Longrightarrow>
   instruction s' = instruction s \<and> instruction_ptr_current s' = instruction_ptr_current s"
  by (auto simp: pop_loop_def split: list.splits)

lemma read_char_fields [simp]:
  "tape_ptr (read_char s) = tape_ptr s"
  "instruction (read_char s) = instruction s"
  "instruction_ptr_current (read_char s) = instruction_ptr_current s"
  "instruction_loop_ptr (read_char s) = instruction_loop_ptr s"
  "jump_loop (read_char s) = jump_loop s"
  "stdout (read_char s) = stdout s"
  "calls (read_char s) = calls s"
  by (simp_all add: read_char_def split: list.splits)

lemma log_frame:
  "run_vm n s c v = Inr s' \<longrightarrow>
     instruction s' = instruction (snd (next_op s c v)) \<and>
     instruction_ptr_current s' = instruction_ptr_current (snd (next_op s c v))"
  "visit n op s = Inr s' \<longrightarrow>
     instruction s' = instruction s \<and> instruction_ptr_current s' = instruction_ptr_current s"
  "loop_while n s = Inr s' \<longrightarrow>
     instruction s' = instruction s \<and> instruction_ptr_current s' = instruction_ptr_current s"
  "replay_while n cur s = Inr s' \<longrightarrow> instruction s' = instruction s"
proof (induction n s c v and n op s and n s and n cur s arbitrary: s' and s' and s' and s'
    rule: run_vm_visit_loop_while_replay_while.induct)
  case (2 n status char_op via_loop)
  show ?case
  proof
    assume r: "run_vm (Suc n) status char_op via_loop = Inr s'"
    obtain op y where d: "next_op (status\<lparr>calls := calls status @ [(char_op, via_loop)]\<rparr>) char_op via_loop = (op, y)"
      by (cases "next_op (status\<lparr>calls := calls status @ [(char_op, via_loop)]\<rparr>) char_op via_loop")
    with r have "visit n op y = Inr s'" by simp
    with "2.IH" [OF d [symmetric]] have
      "instruction s' = instruction y \<and> instruction_ptr_current s' = instruction_ptr_current y"
      by blast
    moreover from d have "instruction y = instruction (snd (next_op status char_op via_loop))"
      "instruction_ptr_current y = instruction_ptr_current (snd (next_op status char_op via_loop))"
      by (auto simp: next_op_def split: option.splits if_splits)
    ultimately show "instruction s' = instruction (snd (next_op status char_op via_loop)) \<and>
       instruction_ptr_current s' = instruction_ptr_current (snd (next_op status char_op via_loop))"
      by simp
  qed
next
  case (10 n status)
  show ?case
  proof
    assume r: "visit n loop_end_op status = Inr s'"
    show "instruction s' = instruction status \<and>
          instruction_ptr_current s' = instruction_ptr_current status"
    proof (cases "jump_loop status = 0 \<and> tape_at (tape_ref status) \<noteq> 0")
      case False
      with r show ?thesis by (auto simp: Let_def split: if_splits)
    next
      case True
      with r obtain s2 where s2: "loop_while n (tape_ref status) = Inr s2" "pop_loop s2 = Inr s'"
        by (auto simp: Let_def split: sum.splits)
      from "10.IH" [of "tape_ref status" s2] True s2(1)
      have "instruction s2 = instruction status \<and>
            instruction_ptr_current s2 = instruction_ptr_current status" by simp
      with pop_loop_log [OF s2(2)] show ?thesis by simp
    qed
  qed
next
  case (13 n status)
  show ?case
  proof
    assume r: "loop_while (Suc n) status = Inr s'"
    let ?s1 = "tape_ref status"
    let ?cur = "instruction_ptr_current ?s1"
    show "instruction s' = instruction status \<and>
          instruction_ptr_current s' = instruction_ptr_current status"
    proof (cases "tape_at ?s1 \<noteq> 0")
      case False
      with r show ?thesis by (auto simp: Let_def)
    next
      case True
      with r obtain t st s2 where
        st: "instruction_loop_ptr ?s1 = t # st" and
        s2: "replay_while n ?cur (?s1\<lparr>instruction_ptr_current := t + 1\<rparr>) = Inr s2" and
        s3: "loop_while n (s2\<lparr>instruction_ptr_current := ?cur\<rparr>) = Inr s'"
        by (auto simp: Let_def split: list.splits sum.splits)
      from "13.IH"(1) [OF refl True refl st, of s2] s2
      have i2: "instruction s2 = instruction status" by simp
      from "13.IH"(2) [OF refl True refl st s2, of s'] s3
      have "instruction s' = instruction (s2\<lparr>instruction_ptr_current := ?cur\<rparr>) \<and>
            instruction_ptr_current s' =
              instruction_ptr_current (s2\<lparr>instruction_ptr_current := ?cur\<rparr>)"
        by blast
      with i2 show ?thesis by simp
    qed
  qed
next
  case (15 n current status)
  show ?case
  proof
    assume r: "replay_while (Suc n) current status = Inr s'"
    show "instruction s' = instruction status"
    proof (cases "instruction_ptr_current status <s current")
      case False
      with r show ?thesis by simp
    next
      case True
      with r obtain c s1 where
        c: "instruction_at status = Inr c" and
        s1: "run_vm n status c True = Inr s1" and
        s2: "replay_while n current
               (s1\<lparr>instruction_ptr_current := instruction_ptr_current s1 + 1\<rparr>) = Inr s'"
        by (auto split: sum.splits)
      from "15.IH"(1) [OF True c, of s1] s1
      have "instruction s1 = instruction (snd (next_op status c True))" by simp
      then have i1: "instruction s1 = instruction status"
        by (simp add: next_op_def split: option.splits)
      from "15.IH"(2) [OF True c s1, of s'] s2
      have "instruction s' =
            instruction (s1\<lparr>instruction_ptr_current := instruction_ptr_current s1 + 1\<rparr>)"
        by blast
      with i1 show ?thesis by simp
    qed
  qed
qed (auto simp: Let_def)

lemma run_vm_fresh_log:
  assumes "run_vm n s c False = Inr s'"
  shows "instruction s' = instruction (snd (next_op s c False))"
    and "instruction_ptr_current s' = instruction_ptr_current (snd (next_op s c False))"
  using log_frame(1) [of n s c False s'] assms by simp_all

lemma log_invariant_step:
  assumes "log_invariant s" and "run_vm n s c False = Inr s'"
  shows "log_invariant s'"
proof (cases "map_of bf_op_map c")
  case None
  with run_vm_fresh_log [OF assms(2)] assms(1) show ?thesis
    by (simp add: log_invariant_def next_op_def)
next
  case (Some op)
  with run_vm_fresh_log [OF assms(2)] assms(1) show ?thesis
    by (simp add: log_invariant_def next_op_def)
qed

lemma log_invariant_initial: "log_invariant (initial_status inp)"
  by (simp add: log_invariant_def initial_status_def)

lemma log_invariant_feed:
  "log_invariant s \<Longrightarrow> feed n s xs = Inr s' \<Longrightarrow> log_invariant s'"
proof (induction xs arbitrary: s)
  case Nil
  then show ?case by simp
next
  case (Cons x xs)
  from Cons.prems(2) obtain s1 where
    s1: "run_vm n s x False = Inr s1" "feed n s1 xs = Inr s'"
    by (auto split: sum.splits)
  from Cons.IH [OF log_invariant_step [OF Cons.prems(1) s1(1)] s1(2)] show ?case .
qed

text \<open>
  C10. The relation \<open>log_invariant\<close> (the instruction pointer, a 32-bit \<^verbatim>\<open>int\<close>, equals the
  length of the instruction log minus one) holds in the initial status and is kept by
  every fresh execution of a symbol that returns: an operator symbol appends itself to
  the log and advances the pointer by one, any other symbol changes neither, and the
  replay of a loop end has restored the pointer when it returns. While the log has at
  most \<open>2 ^ 31\<close> entries, the signed reading of the pointer is that length minus one.
\<close>

theorem instruction_pointer_tracks_log:
  assumes "log_invariant s" and "run_vm n s c False = Inr s'"
  shows "log_invariant (initial_status inp) \<and> log_invariant s' \<and>
         instruction s' =
           (if c \<in> set ''+-><.,[]'' then instruction s @ [c] else instruction s) \<and>
         instruction_ptr_current s' =
           (if c \<in> set ''+-><.,[]'' then instruction_ptr_current s + 1
            else instruction_ptr_current s) \<and>
         (length (instruction s') \<le> 2 ^ 31 \<longrightarrow>
            sint (instruction_ptr_current s') = int (length (instruction s')) - 1)"
proof (intro conjI impI)
  show "log_invariant (initial_status inp)" by (rule log_invariant_initial)
  show inv': "log_invariant s'" by (rule log_invariant_step [OF assms])
  show "instruction s' =
      (if c \<in> set ''+-><.,[]'' then instruction s @ [c] else instruction s)"
    using run_vm_fresh_log(1) [OF assms(2)] recognized_iff [of c]
    by (auto simp: next_op_def split: option.splits)
  show "instruction_ptr_current s' =
      (if c \<in> set ''+-><.,[]'' then instruction_ptr_current s + 1
       else instruction_ptr_current s)"
    using run_vm_fresh_log(2) [OF assms(2)] recognized_iff [of c]
    by (auto simp: next_op_def split: option.splits)
  assume "length (instruction s') \<le> 2 ^ 31"
  from sint_of_nat_minus_1 [OF this] inv'
  show "sint (instruction_ptr_current s') = int (length (instruction s')) - 1"
    by (simp add: log_invariant_def)
qed

theorem instruction_pointer_tracks_log_witness:
  "log_invariant ((initial_status [])\<lparr>tape := [0 \<mapsto> 1], instruction := ''++[-'',
      instruction_ptr_current := 3, instruction_loop_ptr := [2]\<rparr>) \<and>
   (\<exists>s'. run_vm 5 ((initial_status [])\<lparr>tape := [0 \<mapsto> 1], instruction := ''++[-'',
              instruction_ptr_current := 3, instruction_loop_ptr := [2]\<rparr>) (CHR '']'') False =
            Inr s' \<and>
      log_invariant s' \<and> instruction s' = ''++[-]'' \<and> instruction_ptr_current s' = 4 \<and>
      sint (instruction_ptr_current s') = 4)"
proof -
  let ?s = "(initial_status [])\<lparr>tape := [0 \<mapsto> 1], instruction := ''++[-'',
      instruction_ptr_current := 3, instruction_loop_ptr := [2]\<rparr>"
  have h1: "log_invariant ?s" by (simp add: log_invariant_def)
  have "\<exists>s'. run_vm 5 ?s (CHR '']'') False = Inr s' \<and>
           tape_at s' = 0 \<and> tape_ptr s' = tape_ptr ?s \<and>
           instruction s' = instruction ?s @ '']'' \<and>
           instruction_ptr_current s' = 2 + 2 \<and>
           instruction_loop_ptr s' = (if (1::nat) = 0 then 2 # [] else []) \<and>
           jump_loop s' = 0 \<and> stdin s' = stdin ?s \<and> stdout s' = stdout ?s \<and>
           calls s' = calls ?s @ (CHR '']'', False) # replicate 1 (CHR ''-'', True)"
    by (rule run_vm_loop_end_countdown)
      (simp_all add: initial_status_def tape_at_def cell_value_def word_sless_alt)
  then obtain s' where h2: "run_vm 5 ?s (CHR '']'') False = Inr s'" by blast
  from instruction_pointer_tracks_log [OF h1 h2, of "[]"] h1 h2
  show ?thesis by (auto simp: initial_status_def)
qed

section \<open>The skip path\<close>

lemma feed_append:
  "feed n s (xs @ ys) = (case feed n s xs of Inl e \<Rightarrow> Inl e | Inr s' \<Rightarrow> feed n s' ys)"
  by (induction xs arbitrary: s) (auto split: sum.splits)

lemma feed_skip:
  assumes "balanced d xs" and "jump_loop s = of_nat (Suc d)" and "Suc d + length xs < 2 ^ 32"
  shows "\<exists>s'. feed (Suc n) s xs = Inr s' \<and> jump_loop s' = 1 \<and>
           cell_value s' = cell_value s \<and> tape_ptr s' = tape_ptr s \<and>
           instruction_loop_ptr s' = instruction_loop_ptr s \<and>
           stdin s' = stdin s \<and> stdout s' = stdout s"
  using assms
proof (induction xs arbitrary: d s)
  case Nil
  then show ?case by simp
next
  case (Cons x xs)
  from Cons.prems(3) have "Suc d < 2 ^ 32" by simp
  from of_nat_Suc_neq_0 [OF this] Cons.prems(2) have nz: "jump_loop s \<noteq> 0" by simp
  from run_vm_skipping [OF nz, of n x False] obtain s1 where
    s1: "run_vm (Suc n) s x False = Inr s1" "cell_value s1 = cell_value s"
      "tape_ptr s1 = tape_ptr s" "instruction_loop_ptr s1 = instruction_loop_ptr s"
      "stdin s1 = stdin s" "stdout s1 = stdout s"
      "jump_loop s1 = (if x = CHR ''['' then jump_loop s + 1
              else if x = CHR '']'' then jump_loop s - 1 else jump_loop s)"
    by blast
  have "\<exists>d'. balanced d' xs \<and> jump_loop s1 = of_nat (Suc d') \<and> Suc d' + length xs < 2 ^ 32"
  proof (cases "x = CHR ''[''")
    case True
    with Cons.prems s1(7) have "balanced (Suc d) xs \<and> jump_loop s1 = of_nat (Suc (Suc d)) \<and>
       Suc (Suc d) + length xs < 2 ^ 32" by simp
    then show ?thesis by blast
  next
    case False
    show ?thesis
    proof (cases "x = CHR '']''")
      case True
      with Cons.prems(1) obtain d' where d': "d = Suc d'" "balanced d' xs"
        by (cases d) auto
      with True Cons.prems s1(7) have "balanced d' xs \<and> jump_loop s1 = of_nat (Suc d') \<and>
         Suc d' + length xs < 2 ^ 32" by simp
      then show ?thesis by blast
    next
      case False
      with \<open>x \<noteq> CHR ''[''\<close> Cons.prems s1(7) have "balanced d xs \<and> jump_loop s1 = of_nat (Suc d) \<and>
         Suc d + length xs < 2 ^ 32" by simp
      then show ?thesis by blast
    qed
  qed
  then obtain d' where d': "balanced d' xs" "jump_loop s1 = of_nat (Suc d')"
    "Suc d' + length xs < 2 ^ 32" by blast
  from Cons.IH [OF d'] obtain s' where
    "feed (Suc n) s1 xs = Inr s'" "jump_loop s' = 1"
    "cell_value s' = cell_value s1" "tape_ptr s' = tape_ptr s1"
    "instruction_loop_ptr s' = instruction_loop_ptr s1"
    "stdin s' = stdin s1" "stdout s' = stdout s1"
    by blast
  with s1 show ?case by simp
qed

lemma run_vm_loop_start_zero:
  assumes "jump_loop s = 0" and "tape_at s = 0"
  shows "\<exists>s'. run_vm (Suc n) s (CHR ''['') v = Inr s' \<and> jump_loop s' = 1 \<and>
           cell_value s' = cell_value s \<and> tape_ptr s' = tape_ptr s \<and>
           instruction_loop_ptr s' = instruction_loop_ptr s \<and>
           stdin s' = stdin s \<and> stdout s' = stdout s"
  using assms by (simp add: next_op_def Let_def)

text \<open>
  C6. Take a status with \<open>jump_loop\<close> at 0 and the current cell at 0, and a body whose
  brackets are balanced (it may hold nested loops, or none), of fewer than \<open>2 ^ 32 - 1\<close>
  symbols, so that the 32-bit counter \<open>jump_loop\<close> cannot wrap around inside it. Feeding
  the loop start, the body and the loop end returns; nothing is written to the output or
  read from the input, the tape as a total mapping and the cell pointer are unchanged,
  \<open>jump_loop\<close> is back at 0 and the loop stack is as it was.
\<close>

theorem false_loop_is_skipped:
  assumes "jump_loop s = 0" and "tape_at s = 0"
    and "balanced 0 body" and "length body < 2 ^ 32 - 1"
  shows "\<exists>s'. feed (Suc n) s (CHR ''['' # body @ '']'') = Inr s' \<and>
           stdout s' = stdout s \<and> stdin s' = stdin s \<and>
           cell_value s' = cell_value s \<and> tape_ptr s' = tape_ptr s \<and>
           jump_loop s' = 0 \<and>
           instruction_loop_ptr s' = instruction_loop_ptr s"
proof -
  from run_vm_loop_start_zero [OF assms(1,2), of n False] obtain s1 where
    s1: "run_vm (Suc n) s (CHR ''['') False = Inr s1" "jump_loop s1 = 1"
      "cell_value s1 = cell_value s" "tape_ptr s1 = tape_ptr s"
      "instruction_loop_ptr s1 = instruction_loop_ptr s"
      "stdin s1 = stdin s" "stdout s1 = stdout s"
    by blast
  from s1(2) have j1: "jump_loop s1 = of_nat (Suc 0)" by simp
  from assms(4) have b: "Suc 0 + length body < 2 ^ 32" by simp
  from feed_skip [OF assms(3) j1 b, of n] obtain s2 where
    s2: "feed (Suc n) s1 body = Inr s2" "jump_loop s2 = 1"
      "cell_value s2 = cell_value s1" "tape_ptr s2 = tape_ptr s1"
      "instruction_loop_ptr s2 = instruction_loop_ptr s1"
      "stdin s2 = stdin s1" "stdout s2 = stdout s1"
    by blast
  from s2(2) have "jump_loop s2 \<noteq> 0" by simp
  from run_vm_skipping [OF this, of n "CHR '']''" False] obtain s3 where
    s3: "run_vm (Suc n) s2 (CHR '']'') False = Inr s3" "cell_value s3 = cell_value s2"
      "tape_ptr s3 = tape_ptr s2" "instruction_loop_ptr s3 = instruction_loop_ptr s2"
      "stdin s3 = stdin s2" "stdout s3 = stdout s2"
      "jump_loop s3 = jump_loop s2 - 1"
    by auto
  from s1 s2 s3 show ?thesis by (simp add: feed_append)
qed


theorem false_loop_is_skipped_witness:
  "jump_loop (initial_status ''x'') = 0 \<and> tape_at (initial_status ''x'') = 0 \<and>
   balanced 0 ''+.[,-]>[[<].]+'' \<and> length ''+.[,-]>[[<].]+'' < 2 ^ 32 - 1 \<and>
   (\<exists>s'. feed (Suc 0) (initial_status ''x'') (CHR ''['' # ''+.[,-]>[[<].]+'' @ '']'') = Inr s' \<and>
      stdout s' = stdout (initial_status ''x'') \<and> stdin s' = stdin (initial_status ''x'') \<and>
      cell_value s' = cell_value (initial_status ''x'') \<and>
      tape_ptr s' = tape_ptr (initial_status ''x'') \<and>
      jump_loop s' = 0 \<and>
      instruction_loop_ptr s' = instruction_loop_ptr (initial_status ''x''))"
proof -
  have h: "jump_loop (initial_status ''x'') = 0" "tape_at (initial_status ''x'') = 0"
    "balanced 0 ''+.[,-]>[[<].]+''" "length ''+.[,-]>[[<].]+'' < 2 ^ 32 - 1"
    by (simp_all add: initial_status_def tape_at_def cell_value_def)
  from false_loop_is_skipped [OF h, of 0] h show ?thesis by blast
qed

section \<open>The decrement loop\<close>

lemma run_vm_plus_fresh:
  "jump_loop s = 0 \<Longrightarrow>
   \<exists>s'. run_vm (Suc n) s (CHR ''+'') False = Inr s' \<and> tape_at s' = tape_at s + 1 \<and>
        tape_ptr s' = tape_ptr s \<and> jump_loop s' = 0 \<and>
        instruction s' = instruction s @ ''+'' \<and>
        instruction_ptr_current s' = instruction_ptr_current s + 1 \<and>
        instruction_loop_ptr s' = instruction_loop_ptr s \<and>
        calls s' = calls s @ [(CHR ''+'', False)]"
  by (simp add: next_op_def)

lemma run_vm_minus_fresh:
  "jump_loop s = 0 \<Longrightarrow>
   \<exists>s'. run_vm (Suc n) s (CHR ''-'') False = Inr s' \<and> tape_at s' = tape_at s - 1 \<and>
        tape_ptr s' = tape_ptr s \<and> jump_loop s' = 0 \<and>
        instruction s' = instruction s @ ''-'' \<and>
        instruction_ptr_current s' = instruction_ptr_current s + 1 \<and>
        instruction_loop_ptr s' = instruction_loop_ptr s \<and>
        calls s' = calls s @ [(CHR ''-'', False)]"
  by (simp add: next_op_def)

lemma run_vm_loop_start_fresh:
  "jump_loop s = 0 \<Longrightarrow> tape_at s \<noteq> 0 \<Longrightarrow>
   \<exists>s'. run_vm (Suc n) s (CHR ''['') False = Inr s' \<and> tape_at s' = tape_at s \<and>
        tape_ptr s' = tape_ptr s \<and> jump_loop s' = 0 \<and>
        instruction s' = instruction s @ ''['' \<and>
        instruction_ptr_current s' = instruction_ptr_current s + 1 \<and>
        instruction_loop_ptr s' = (instruction_ptr_current s + 1) # instruction_loop_ptr s \<and>
        calls s' = calls s @ [(CHR ''['', False)]"
  by (simp add: next_op_def Let_def)

lemma feed_plus_log:
  "jump_loop s = 0 \<Longrightarrow>
   \<exists>s'. feed (Suc n) s (replicate N (CHR ''+'')) = Inr s' \<and>
        tape_at s' = tape_at s + of_nat N \<and> tape_ptr s' = tape_ptr s \<and> jump_loop s' = 0 \<and>
        instruction s' = instruction s @ replicate N (CHR ''+'') \<and>
        instruction_ptr_current s' = instruction_ptr_current s + of_nat N \<and>
        instruction_loop_ptr s' = instruction_loop_ptr s \<and>
        calls s' = calls s @ replicate N (CHR ''+'', False)"
proof (induction N arbitrary: s)
  case 0
  then show ?case by simp
next
  case (Suc N)
  from run_vm_plus_fresh [OF Suc.prems, of n] obtain s1 where
    s1: "run_vm (Suc n) s (CHR ''+'') False = Inr s1" "tape_at s1 = tape_at s + 1"
        "tape_ptr s1 = tape_ptr s" "jump_loop s1 = 0"
        "instruction s1 = instruction s @ ''+''"
        "instruction_ptr_current s1 = instruction_ptr_current s + 1"
        "instruction_loop_ptr s1 = instruction_loop_ptr s"
        "calls s1 = calls s @ [(CHR ''+'', False)]"
    by blast
  from Suc.IH [OF s1(4)] obtain s' where
    "feed (Suc n) s1 (replicate N (CHR ''+'')) = Inr s'"
    "tape_at s' = tape_at s1 + of_nat N" "tape_ptr s' = tape_ptr s1" "jump_loop s' = 0"
    "instruction s' = instruction s1 @ replicate N (CHR ''+'')"
    "instruction_ptr_current s' = instruction_ptr_current s1 + of_nat N"
    "instruction_loop_ptr s' = instruction_loop_ptr s1"
    "calls s' = calls s1 @ replicate N (CHR ''+'', False)"
    by blast
  with s1 show ?case by simp
qed

text \<open>
  C3. For \<open>0 < k < 256\<close>, feeding \<open>k\<close> value-increments followed by \<^verbatim>\<open>[-]\<close> to the
  freshly initialised machine returns for every fuel from \<open>k + 3\<close> on. The current cell
  is then 0; the instruction pointer is \<open>k + 2\<close>, the index of the loop end in the log;
  and \<open>run_vm\<close> has been called on the value-decrement exactly \<open>k\<close> times: once fresh
  and \<open>k - 1\<close> times as a replay by the loop end, as the history of calls shows.
\<close>

theorem decrement_loop_runs_k_times:
  assumes "0 < k" and "k < 256" and "k + 3 \<le> n"
  shows "\<exists>s. feed n (initial_status inp) (replicate k (CHR ''+'') @ ''[-]'') = Inr s \<and>
           tape_at s = 0 \<and> tape_ptr s = 0 \<and>
           instruction s = replicate k (CHR ''+'') @ ''[-]'' \<and>
           sint (instruction_ptr_current s) = int k + 2 \<and>
           calls s = map (\<lambda>c. (c, False)) (replicate k (CHR ''+'') @ ''[-]'') @
                     replicate (k - 1) (CHR ''-'', True) \<and>
           length (filter (\<lambda>e. fst e = CHR ''-'') (calls s)) = k"
proof -
  from assms(3) obtain n' where n: "n = Suc n'" by (cases n) auto
  let ?s0 = "initial_status inp"
  let ?t = "of_nat k :: 32 word"
  have j0: "jump_loop ?s0 = 0" by (simp add: initial_status_def)
  from feed_plus_log [OF j0, of n' k] obtain s1 where
    s1: "feed n ?s0 (replicate k (CHR ''+'')) = Inr s1"
      "tape_at s1 = of_nat k" "tape_ptr s1 = 0" "jump_loop s1 = 0"
      "instruction s1 = replicate k (CHR ''+'')"
      "instruction_ptr_current s1 = - 1 + ?t"
      "instruction_loop_ptr s1 = []"
      "calls s1 = replicate k (CHR ''+'', False)"
    unfolding n by (auto simp: initial_status_def tape_at_def cell_value_def)
  from assms(1,2) have "unat (of_nat k :: 8 word) = k" by (simp add: unat_of_nat)
  with assms(1) s1(2) have nz: "tape_at s1 \<noteq> 0" and u1: "unat (tape_at s1) = k" by auto
  from run_vm_loop_start_fresh [OF s1(4) nz, of n'] s1 obtain s2 where
    s2: "run_vm n s1 (CHR ''['') False = Inr s2"
      "tape_at s2 = tape_at s1" "tape_ptr s2 = 0" "jump_loop s2 = 0"
      "instruction s2 = replicate k (CHR ''+'') @ ''[''"
      "instruction_ptr_current s2 = ?t"
      "instruction_loop_ptr s2 = [?t]"
      "calls s2 = replicate k (CHR ''+'', False) @ [(CHR ''['', False)]"
    unfolding n by auto
  from run_vm_minus_fresh [OF s2(4), of n'] s2 obtain s3 where
    s3: "run_vm n s2 (CHR ''-'') False = Inr s3"
      "tape_at s3 = tape_at s1 - 1" "tape_ptr s3 = 0" "jump_loop s3 = 0"
      "instruction s3 = replicate k (CHR ''+'') @ ''[-''"
      "instruction_ptr_current s3 = ?t + 1"
      "instruction_loop_ptr s3 = [?t]"
      "calls s3 = replicate k (CHR ''+'', False) @ [(CHR ''['', False), (CHR ''-'', False)]"
    unfolding n by auto
  from unat_minus_one [OF nz] u1 s3(2) have u3: "unat (tape_at s3) = k - 1" by simp
  have t1: "?t + 1 = of_nat (Suc k)" and t2: "?t + 2 = of_nat (Suc (Suc k))" by simp_all
  from assms(2) have st1: "sint (?t + 1) = int (Suc k)" and st2: "sint (?t + 2) = int (Suc (Suc k))"
    unfolding t1 t2 by (simp_all add: sint_of_nat_small del: of_nat_Suc)
  have "\<exists>s'. run_vm n s3 (CHR '']'') False = Inr s' \<and>
           tape_at s' = 0 \<and> tape_ptr s' = tape_ptr s3 \<and>
           instruction s' = instruction s3 @ '']'' \<and>
           instruction_ptr_current s' = ?t + 2 \<and>
           instruction_loop_ptr s' = (if k - 1 = 0 then ?t # [] else []) \<and>
           jump_loop s' = 0 \<and> stdin s' = stdin s3 \<and> stdout s' = stdout s3 \<and>
           calls s' = calls s3 @ (CHR '']'', False) # replicate (k - 1) (CHR ''-'', True)"
  proof (rule run_vm_loop_end_countdown)
    show "jump_loop s3 = 0" by (rule s3(4))
    show "instruction_loop_ptr s3 = [?t]" by (rule s3(7))
    show "instruction_ptr_current s3 = ?t + 1" by (rule s3(6))
    show "0 \<le> sint (?t + 1)" unfolding st1 by simp
    show "nat (sint (?t + 1)) < length (instruction s3)" unfolding st1 s3(5) by simp
    show "instruction s3 ! nat (sint (?t + 1)) = CHR ''-''"
      unfolding st1 s3(5) by (simp add: nth_append)
    show "?t + 1 <s ?t + 2" unfolding word_sless_alt st1 st2 by simp
    show "unat (tape_at s3) = k - 1" by (rule u3)
    show "k - 1 + 4 \<le> n" using assms(1,3) by simp
  qed
  then obtain s4 where
    s4: "run_vm n s3 (CHR '']'') False = Inr s4" "tape_at s4 = 0" "tape_ptr s4 = tape_ptr s3"
      "instruction s4 = instruction s3 @ '']''" "instruction_ptr_current s4 = ?t + 2"
      "calls s4 = calls s3 @ (CHR '']'', False) # replicate (k - 1) (CHR ''-'', True)"
    by blast
  have run: "feed n ?s0 (replicate k (CHR ''+'') @ ''[-]'') = Inr s4"
    using s1(1) s2(1) s3(1) s4(1) by (simp add: feed_append)
  have c: "calls s4 = map (\<lambda>c. (c, False)) (replicate k (CHR ''+'') @ ''[-]'') @
                     replicate (k - 1) (CHR ''-'', True)"
    unfolding s4(6) s3(8) by simp
  have "length (filter (\<lambda>e. fst e = CHR ''-'') (calls s4)) = k"
    unfolding c using assms(1) by (simp add: filter_replicate o_def)
  with run s4 s3 c st2 show ?thesis by simp
qed


theorem decrement_loop_runs_k_times_witness:
  "(0::nat) < 3 \<and> (3::nat) < 256 \<and> (3::nat) + 3 \<le> 6 \<and>
   (\<exists>s. feed 6 (initial_status []) (replicate 3 (CHR ''+'') @ ''[-]'') = Inr s \<and>
      tape_at s = 0 \<and> tape_ptr s = 0 \<and>
      instruction s = replicate 3 (CHR ''+'') @ ''[-]'' \<and>
      sint (instruction_ptr_current s) = int 3 + 2 \<and>
      calls s = map (\<lambda>c. (c, False)) (replicate 3 (CHR ''+'') @ ''[-]'') @
                replicate (3 - 1) (CHR ''-'', True) \<and>
      length (filter (\<lambda>e. fst e = CHR ''-'') (calls s)) = 3)"
proof -
  have h: "(0::nat) < 3" "(3::nat) < 256" "(3::nat) + 3 \<le> 6" by simp_all
  from decrement_loop_runs_k_times [OF h, of "[]"] h show ?thesis by blast
qed

end
